theory Spec2Isabelle
  imports Complex_Main "HOL-Library.Word"
begin

section \<open>Climate data analysis: the aggregation of \<open>climate.c\<close>\<close>

text \<open>
  The development embeds \<open>analyze_file\<close>, \<open>print_report\<close> and \<open>main\<close> of
  \<open>climate.c\<close>, and the aggregation loop of the earlier draft \<open>climate copy.c\<close>.

  Conventions of the embedding:
  \<^item> \<open>double\<close> and \<open>long double\<close> are modelled by \<open>real\<close>: rounding, overflow,
    infinities and NaN are not represented. A numeric field written as an infinity, a NaN
    or a hexadecimal constant ends the model with \<open>NotModelled\<close>.
  \<^item> \<open>unsigned long\<close> is a 64-bit word (LP64), so the counters wrap around.
  \<^item> \<open>long\<close> is an \<open>int\<close> kept inside the 64-bit signed range by \<open>atol\<close>.
  \<^item> Undefined behaviour of the C program (an access outside an array, a read of an
    array element that was never set, a \<open>strcpy\<close> beyond its destination) ends the
    model with an error value naming it.
  \<^item> A file is the list of the strings that successive calls of
    \<open>fgets (line, 100, file)\<close> return; \<open>malloc\<close> is taken to succeed.
\<close>

subsection \<open>Errors\<close>

datatype error =
    DataOverflow        \<comment> \<open>a tenth token is written to \<open>data[9]\<close>\<close>
  | UninitialisedRead   \<comment> \<open>an element of \<open>data\<close> is read that no token was stored in\<close>
  | StatesOutOfBounds   \<comment> \<open>\<open>states[val]\<close> is accessed outside the array\<close>
  | CodeOverflow        \<comment> \<open>\<open>strcpy\<close> writes beyond \<open>char code[3]\<close>\<close>
  | NotModelled         \<comment> \<open>a floating-point value that \<open>real\<close> cannot express\<close>
  | DivisionByZero      \<comment> \<open>a quotient by \<open>num_records = 0\<close>, an infinity or NaN in C\<close>

subsection \<open>The C library functions that the program calls\<close>

definition TAB :: char where
  "TAB = CHR 0x09"

definition NL :: char where
  "NL = CHR 0x0A"

definition isspace_c :: "char \<Rightarrow> bool" where
  "isspace_c c = (c = CHR 0x20 \<or> c = CHR 0x09 \<or> c = CHR 0x0A \<or> c = CHR 0x0B
                  \<or> c = CHR 0x0C \<or> c = CHR 0x0D)"

definition isdigit_c :: "char \<Rightarrow> bool" where
  "isdigit_c c = (48 \<le> (of_char c :: nat) \<and> (of_char c :: nat) \<le> 57)"

definition digit_val :: "char \<Rightarrow> nat" where
  "digit_val c = of_char c - 48"

definition digits_val :: "string \<Rightarrow> nat" where
  "digits_val ds = foldl (\<lambda>a c. 10 * a + digit_val c) 0 ds"

text \<open>
  One call of \<open>strtok\<close> with the delimiter set \<open>"\t"\<close> on the unread rest of the
  buffer: leading tabs are skipped; \<open>None\<close> is the \<open>NULL\<close> returned when nothing is
  left; otherwise the token and the rest after the tab that ended it.
\<close>

definition strtok :: "string \<Rightarrow> (string \<times> string) option" where
  "strtok s =
     (let s' = dropWhile (\<lambda>c. c = TAB) s in
      if s' = [] then None
      else Some (takeWhile (\<lambda>c. c \<noteq> TAB) s', drop 1 (dropWhile (\<lambda>c. c \<noteq> TAB) s')))"

text \<open>The sign that \<open>strtol\<close> and \<open>strtod\<close> accept after the white space.\<close>

definition split_sign :: "string \<Rightarrow> bool \<times> string" where
  "split_sign s =
     (case s of
        [] \<Rightarrow> (False, [])
      | c # r \<Rightarrow> if c = CHR ''-'' then (True, r)
                 else if c = CHR ''+'' then (False, r)
                 else (False, s))"

definition LONG_MAX :: int where
  "LONG_MAX = 2 ^ 63 - 1"

definition LONG_MIN :: int where
  "LONG_MIN = - (2 ^ 63)"

text \<open>
  \<open>atol\<close> is \<open>strtol (s, NULL, 10)\<close>: white space, an optional sign, the longest run
  of decimal digits (none gives 0); a value outside \<open>long\<close> is clamped, as glibc does.
\<close>

definition atol :: "string \<Rightarrow> int" where
  "atol s =
     (let (neg, r) = split_sign (dropWhile isspace_c s);
          n = int (digits_val (takeWhile isdigit_c r));
          v = (if neg then - n else n)
      in max LONG_MIN (min LONG_MAX v))"

text \<open>
  \<open>atof\<close> is \<open>strtod (s, NULL)\<close> on decimal notation: white space, an optional sign,
  digits with an optional point, an optional exponent; 0 when no digit is found. The value
  is the exact decimal number.
  \<open>atof_special\<close> holds of the inputs that continue, after the white space and the
  sign, with \<open>i\<close>, \<open>n\<close> or \<open>0x\<close> in either case: among them are all inputs that
  \<open>strtod\<close> reads as an infinity, a NaN or a hexadecimal constant, which the decimal
  reading below does not cover.
\<close>

definition atof_special :: "string \<Rightarrow> bool" where
  "atof_special s =
     (case snd (split_sign (dropWhile isspace_c s)) of
        [] \<Rightarrow> False
      | c # r \<Rightarrow> c \<in> set ''iInN''
                 \<or> (c = CHR ''0'' \<and> (case r of [] \<Rightarrow> False | x # _ \<Rightarrow> x \<in> set ''xX'')))"

definition exponent :: "string \<Rightarrow> int" where
  "exponent s =
     (case s of
        [] \<Rightarrow> 0
      | c # r \<Rightarrow>
          if c \<in> set ''eE'' then
            (let (neg, ds) = split_sign r;
                 e = int (digits_val (takeWhile isdigit_c ds))
             in if takeWhile isdigit_c ds = [] then 0 else if neg then - e else e)
          else 0)"

definition pow10 :: "int \<Rightarrow> real" where
  "pow10 e = (if 0 \<le> e then 10 ^ nat e else 1 / 10 ^ nat (- e))"

definition atof :: "string \<Rightarrow> real" where
  "atof s =
     (let (neg, r) = split_sign (dropWhile isspace_c s);
          ip = takeWhile isdigit_c r;
          r1 = dropWhile isdigit_c r;
          has_point = (r1 \<noteq> [] \<and> hd r1 = CHR ''.'');
          fp = (if has_point then takeWhile isdigit_c (tl r1) else []);
          r2 = (if has_point then dropWhile isdigit_c (tl r1) else r1);
          m = real (digits_val (ip @ fp)) / 10 ^ length fp;
          v = (if ip = [] \<and> fp = [] then 0 else m * pow10 (exponent r2))
      in if neg then - v else v)"

text \<open>C's integer division truncates towards zero.\<close>

definition c_div :: "int \<Rightarrow> int \<Rightarrow> int" where
  "c_div a b = sgn a * sgn b * (\<bar>a\<bar> div \<bar>b\<bar>)"

subsection \<open>The data of \<open>climate.c\<close>\<close>

definition NUM_STATES :: nat where
  "NUM_STATES = 50"

record climate_info =
  code :: string
  num_records :: "64 word"
  max_temp :: real
  max_temp_time :: int
  min_temp :: real
  min_temp_time :: int
  num_lightning_strikes :: "64 word"
  num_snow :: "64 word"
  sum_of_temperature :: real
  sum_of_humidity :: real
  sum_of_cloud_cover :: real

text \<open>
  \<open>struct climate_info *states[NUM_STATES]\<close>: \<open>None\<close> is the \<open>NULL\<close> pointer. Every
  pointer stored by \<open>climate.c\<close> comes from its own \<open>malloc\<close> and is stored in one
  slot only, so a slot holds the structure itself.
\<close>

type_synonym states = "climate_info option list"

subsection \<open>\<open>analyze_file\<close>\<close>

text \<open>
  The inner loop that fills \<open>char *data[9]\<close>: \<open>tokens\<close> returns every token of the
  line in order. The buffer holds at most 99 characters, which bounds the loop.
\<close>

function tokens :: "string \<Rightarrow> string list" where
  "tokens s = (case strtok s of None \<Rightarrow> [] | Some (t, r) \<Rightarrow> t # tokens r)"
  by pat_completeness auto
termination
proof (relation "measure length")
  fix s x t r
  assume "strtok s = Some x" and "(t, r) = x"
  then have r: "r = drop 1 (dropWhile (\<lambda>c. c \<noteq> TAB) (dropWhile (\<lambda>c. c = TAB) s))"
    and ne: "dropWhile (\<lambda>c. c = TAB) s \<noteq> []"
    by (auto simp: strtok_def Let_def split: if_splits)
  let ?s' = "dropWhile (\<lambda>c. c = TAB) s"
  obtain a w where aw: "?s' = a # w" using ne by (cases ?s') auto
  have "a \<noteq> TAB" using hd_dropWhile [of "\<lambda>c. c = TAB" s] ne aw by simp
  then have "dropWhile (\<lambda>c. c \<noteq> TAB) ?s' = dropWhile (\<lambda>c. c \<noteq> TAB) w"
    using aw by simp
  moreover have "length (dropWhile (\<lambda>c. c \<noteq> TAB) w) \<le> length w"
    by (rule length_dropWhile_le)
  moreover have "length ?s' \<le> length s" by (rule length_dropWhile_le)
  ultimately show "(r, s) \<in> measure length" using r aw by simp
qed simp

declare tokens.simps [simp del]

text \<open>The expressions that the loop body evaluates from \<open>data\<close>.\<close>

definition temp_f :: "string list \<Rightarrow> real" where
  "temp_f data = atof (data ! 8) * 1.8 - 459.67"

definition obs_time :: "string list \<Rightarrow> int" where
  "obs_time data = c_div (atol (data ! 1)) 1000"

text \<open>
  \<open>while (val < num_states && states[val] != NULL)\<close> with the \<open>strcmp\<close> and
  \<open>break\<close> in its body: the result is the value of \<open>val\<close> when the loop ends.
\<close>

function scan :: "nat \<Rightarrow> states \<Rightarrow> string \<Rightarrow> nat \<Rightarrow> error + nat" where
  "scan num_states sts c val =
     (if val < num_states then
        (if val < length sts then
           (case sts ! val of
              None \<Rightarrow> Inr val
            | Some s \<Rightarrow> if c = code s then Inr val
                        else scan num_states sts c (val + 1))
         else Inl StatesOutOfBounds)
      else Inr val)"
  by pat_completeness auto
termination
  by (relation "measure (\<lambda>(num_states, sts, c, val). num_states - val)") auto

declare scan.simps [simp del]

text \<open>The branch that initialises a new structure (lines 157 to 168).\<close>

definition init_info :: "string list \<Rightarrow> climate_info" where
  "init_info data =
     \<lparr> code = data ! 0,
       num_records = 1,
       max_temp = temp_f data,
       max_temp_time = obs_time data,
       min_temp = temp_f data,
       min_temp_time = obs_time data,
       num_lightning_strikes = word_of_int (atol (data ! 6)),
       num_snow = word_of_int (atol (data ! 4)),
       sum_of_temperature = temp_f data,
       sum_of_humidity = atof (data ! 3),
       sum_of_cloud_cover = atof (data ! 5) \<rparr>"

text \<open>The branch that updates an existing structure (lines 170 to 183).\<close>

definition update_info :: "climate_info \<Rightarrow> string list \<Rightarrow> climate_info" where
  "update_info s data =
     (let s1 = s\<lparr> num_records := num_records s + 1 \<rparr>;
          s2 = (if max_temp s1 < temp_f data
                then s1\<lparr> max_temp := temp_f data, max_temp_time := obs_time data \<rparr>
                else s1);
          s3 = (if min_temp s2 > temp_f data
                then s2\<lparr> min_temp := temp_f data, min_temp_time := obs_time data \<rparr>
                else s2)
      in s3\<lparr> num_lightning_strikes := num_lightning_strikes s3 + word_of_int (atol (data ! 6)),
             num_snow := num_snow s3 + word_of_int (atol (data ! 4)),
             sum_of_temperature := sum_of_temperature s3 + temp_f data,
             sum_of_humidity := sum_of_humidity s3 + atof (data ! 3),
             sum_of_cloud_cover := sum_of_cloud_cover s3 + atof (data ! 5) \<rparr>)"

text \<open>
  One iteration of the \<open>while (fgets ...)\<close> loop on the string that \<open>fgets\<close> returned.
  The checks follow the order in which the C code reaches the accesses they guard.
\<close>

definition analyze_line :: "nat \<Rightarrow> states \<Rightarrow> string \<Rightarrow> error + states" where
  "analyze_line num_states sts line =
     (let data = tokens line in
      if 9 < length data then Inl DataOverflow
      else if data = [] then Inl UninitialisedRead
      else
        (case scan num_states sts (data ! 0) 0 of
           Inl e \<Rightarrow> Inl e
         | Inr val \<Rightarrow>
             if length sts \<le> val then Inl StatesOutOfBounds
             else if sts ! val = None \<and> 2 < length (data ! 0) then Inl CodeOverflow
             else if length data < 9 then Inl UninitialisedRead
             else if atof_special (data ! 8) \<or> atof_special (data ! 3)
                     \<or> atof_special (data ! 5) then Inl NotModelled
             else
               (case sts ! val of
                  None \<Rightarrow> Inr (sts[val := Some (init_info data)])
                | Some s \<Rightarrow> Inr (sts[val := Some (update_info s data)]))))"

fun analyze_file :: "nat \<Rightarrow> states \<Rightarrow> string list \<Rightarrow> error + states" where
  "analyze_file num_states sts [] = Inr sts"
| "analyze_file num_states sts (line # rest) =
     (case analyze_line num_states sts line of
        Inl e \<Rightarrow> Inl e
      | Inr sts' \<Rightarrow> analyze_file num_states sts' rest)"

subsection \<open>\<open>print_report\<close>\<close>

text \<open>
  What \<open>print_report\<close> writes, before formatting: the number formats (\<open>%.1f\<close>) and
  \<open>ctime\<close> are not modelled, a block carries the values that are printed.
\<close>

record state_summary =
  rep_code :: string
  rep_num_records :: "64 word"
  avg_humidity :: real
  avg_temperature :: real
  rep_max_temp :: real
  rep_max_temp_time :: int
  rep_min_temp :: real
  rep_min_temp_time :: int
  rep_lightning_strikes :: "64 word"
  rep_snow :: "64 word"
  avg_cloud_cover :: real

datatype printed =
    Usage string            \<comment> \<open>the usage line with \<open>argv[0]\<close>\<close>
  | FileMissing             \<comment> \<open>"File does not exist. Moving on to next file..."\<close>
  | Welcome
  | StatesFound "string list"
  | StateSummary state_summary

text \<open>The block printed for one non-\<open>NULL\<close> entry (lines 206 to 216).\<close>

definition summary :: "climate_info \<Rightarrow> error + state_summary" where
  "summary info =
     (if num_records info = 0 then Inl DivisionByZero
      else Inr \<lparr> rep_code = code info,
                 rep_num_records = num_records info,
                 avg_humidity = sum_of_humidity info / real (unat (num_records info)),
                 avg_temperature = sum_of_temperature info / real (unat (num_records info)),
                 rep_max_temp = max_temp info,
                 rep_max_temp_time = max_temp_time info,
                 rep_min_temp = min_temp info,
                 rep_min_temp_time = min_temp_time info,
                 rep_lightning_strikes = num_lightning_strikes info,
                 rep_snow = num_snow info,
                 avg_cloud_cover = sum_of_cloud_cover info / real (unat (num_records info)) \<rparr>)"

text \<open>The first loop of \<open>print_report\<close>, over the entries it visits.\<close>

fun found_codes :: "states \<Rightarrow> string list" where
  "found_codes [] = []"
| "found_codes (None # rest) = found_codes rest"
| "found_codes (Some info # rest) = code info # found_codes rest"

text \<open>The second loop of \<open>print_report\<close>, over the entries it visits.\<close>

fun summaries :: "states \<Rightarrow> error + state_summary list" where
  "summaries [] = Inr []"
| "summaries (None # rest) = summaries rest"
| "summaries (Some info # rest) =
     (case summary info of
        Inl e \<Rightarrow> Inl e
      | Inr b \<Rightarrow> (case summaries rest of Inl e \<Rightarrow> Inl e | Inr bs \<Rightarrow> Inr (b # bs)))"

text \<open>Both loops visit \<open>states[0]\<close> to \<open>states[num_states - 1]\<close>.\<close>

definition print_report :: "nat \<Rightarrow> states \<Rightarrow> error + printed list" where
  "print_report num_states sts =
     (if length sts < num_states then Inl StatesOutOfBounds
      else
        (case summaries (take num_states sts) of
           Inl e \<Rightarrow> Inl e
         | Inr bs \<Rightarrow>
             Inr (Welcome # StatesFound (found_codes (take num_states sts))
                    # map StateSummary bs)))"

subsection \<open>\<open>main\<close>\<close>

definition EXIT_FAILURE :: nat where
  "EXIT_FAILURE = 1"

text \<open>\<open>struct climate_info *states[NUM_STATES] = { NULL }\<close>\<close>

definition initial_states :: states where
  "initial_states = replicate NUM_STATES None"

text \<open>
  The file system is a function from a file name to the lines of the file, \<open>None\<close> when
  \<open>fopen\<close> returns \<open>NULL\<close>. The loop over \<open>argv[1]\<close> to \<open>argv[argc - 1]\<close> returns
  \<open>None\<close> where \<open>main\<close> returns \<open>EXIT_FAILURE\<close> from inside the loop.
\<close>

fun main_loop :: "(string \<Rightarrow> string list option) \<Rightarrow> states \<Rightarrow> string list
                    \<Rightarrow> error + states option" where
  "main_loop fs sts [] = Inr (Some sts)"
| "main_loop fs sts (name # rest) =
     (case fs name of
        None \<Rightarrow> Inr None
      | Some file \<Rightarrow>
          (case analyze_file NUM_STATES sts file of
             Inl e \<Rightarrow> Inl e
           | Inr sts' \<Rightarrow> main_loop fs sts' rest))"

text \<open>
  \<open>main\<close> with \<open>argv[0] = prog\<close> and the remaining arguments \<open>files\<close>, so that
  \<open>argc = 1 + length files\<close>: the exit status and what was written to standard output.
\<close>

definition main :: "(string \<Rightarrow> string list option) \<Rightarrow> string \<Rightarrow> string list
                    \<Rightarrow> error + nat \<times> printed list" where
  "main fs prog files =
     (if 1 + length files < 2 then Inr (EXIT_FAILURE, [Usage prog])
      else
        (case main_loop fs initial_states files of
           Inl e \<Rightarrow> Inl e
         | Inr None \<Rightarrow> Inr (EXIT_FAILURE, [FileMissing])
         | Inr (Some sts) \<Rightarrow>
             (case print_report NUM_STATES sts of
                Inl e \<Rightarrow> Inl e
              | Inr out \<Rightarrow> Inr (0, out))))"

subsection \<open>Input lines in the TDV format\<close>

text \<open>
  The line that \<open>fgets\<close> returns for a record of the format described at the head of
  \<open>climate.c\<close>: the fields separated by a tab, ended by a newline.
\<close>

fun tdv_line :: "string list \<Rightarrow> string" where
  "tdv_line [] = [NL]"
| "tdv_line [f] = f @ [NL]"
| "tdv_line (f # g # fs) = f @ TAB # tdv_line (g # fs)"

text \<open>A record with the given state code, timestamp and surface temperature.\<close>

definition record_line :: "string \<Rightarrow> string \<Rightarrow> string \<Rightarrow> string" where
  "record_line c millis kelvin =
     tdv_line [c, millis, ''9prcjqk3yc80'', ''93.0'', ''0.0'', ''100.0'', ''1.0'',
               ''95644.0'', kelvin]"

definition sample_285 :: string where
  "sample_285 = record_line ''CA'' ''1428300000000'' ''285.0''"

definition line_tx_300 :: string where
  "line_tx_300 = record_line ''TX'' ''1428400000000'' ''300.0''"

definition line_ca_290_first :: string where
  "line_ca_290_first = record_line ''CA'' ''1428500000000'' ''290.0''"

definition line_ca_290_later :: string where
  "line_ca_290_later = record_line ''CA'' ''1428600000000'' ''290.0''"

definition line_wa_280 :: string where
  "line_wa_280 = record_line ''WA'' ''1428700000000'' ''280.0''"

text \<open>
  A file system with three files; \<open>ab.tdv\<close> holds the lines of \<open>a.tdv\<close> followed by
  those of \<open>b.tdv\<close>; no other file can be opened.
\<close>

definition sample_fs :: "string \<Rightarrow> string list option" where
  "sample_fs name =
     (if name = ''a.tdv'' then Some [sample_285, line_tx_300]
      else if name = ''b.tdv'' then Some [line_ca_290_first, line_wa_280]
      else if name = ''ab.tdv''
        then Some [sample_285, line_tx_300, line_ca_290_first, line_wa_280]
      else None)"



text \<open>The fifty states and the District of Columbia.\<close>

definition codes50 :: "string list" where
  "codes50 =
     [''AL'', ''AK'', ''AZ'', ''AR'', ''CA'', ''CO'', ''CT'', ''DE'', ''FL'', ''GA'',
      ''HI'', ''ID'', ''IL'', ''IN'', ''IA'', ''KS'', ''KY'', ''LA'', ''ME'', ''MD'',
      ''MA'', ''MI'', ''MN'', ''MS'', ''MO'', ''MT'', ''NE'', ''NV'', ''NH'', ''NJ'',
      ''NM'', ''NY'', ''NC'', ''ND'', ''OH'', ''OK'', ''OR'', ''PA'', ''RI'', ''SC'',
      ''SD'', ''TN'', ''TX'', ''UT'', ''VT'', ''VA'', ''WA'', ''WV'', ''WI'', ''WY'']"

definition lines50 :: "string list" where
  "lines50 = map (\<lambda>c. record_line c ''1428300000000'' ''285.0'') codes50"

definition line_dc :: string where
  "line_dc = record_line ''DC'' ''1428300000000'' ''285.0''"

text \<open>A file system whose one file has a record for each of these 51 codes.\<close>

definition fs51 :: "string \<Rightarrow> string list option" where
  "fs51 name = (if name = ''us.tdv'' then Some (lines50 @ [line_dc]) else None)"

subsection \<open>Notions used to state the properties\<close>

text \<open>The state code of a line, \<open>data[0]\<close>.\<close>

definition region :: "string \<Rightarrow> string" where
  "region line = tokens line ! 0"

text \<open>
  The lines on which the behaviour of the loop body is defined and expressible, apart from
  the capacity of \<open>states\<close>: nine tokens, a state code that fits \<open>char code[3]\<close>, and
  decimal notation in the three fields read by \<open>atof\<close>.
\<close>

definition defined_line :: "string \<Rightarrow> bool" where
  "defined_line line =
     (let data = tokens line in
      length data = 9 \<and> length (data ! 0) \<le> 2 \<and> \<not> atof_special (data ! 8)
      \<and> \<not> atof_special (data ! 3) \<and> \<not> atof_special (data ! 5))"

text \<open>
  The order of first appearance: \<open>first_seen_from seen xs\<close> lists the elements of \<open>xs\<close>
  that are not in \<open>seen\<close>, each once, in the order in which they first occur.
\<close>

fun first_seen_from :: "'a list \<Rightarrow> 'a list \<Rightarrow> 'a list" where
  "first_seen_from seen [] = []"
| "first_seen_from seen (x # xs) =
     (if x \<in> set seen then first_seen_from seen xs
      else x # first_seen_from (x # seen) xs)"

definition first_seen :: "'a list \<Rightarrow> 'a list" where
  "first_seen xs = first_seen_from [] xs"

text \<open>
  The registry of the specification (section 4.2, \<open>observe\<close>): the accumulated structures
  in insertion order; an observation updates the structure with its code or is appended
  as a new one. It is compared with \<open>analyze_line\<close> on the array below.
\<close>

fun registry_observe :: "climate_info list \<Rightarrow> string list \<Rightarrow> climate_info list" where
  "registry_observe [] data = [init_info data]"
| "registry_observe (s # ss) data =
     (if data ! 0 = code s then update_info s data # ss
      else s # registry_observe ss data)"

text \<open>The array that holds a registry: its structures in order, then \<open>NULL\<close>s.\<close>

definition array_of :: "nat \<Rightarrow> climate_info list \<Rightarrow> states" where
  "array_of n infos = map Some infos @ replicate (n - length infos) None"

text \<open>The token arrays of the lines of region \<open>c\<close>, in the order of the input.\<close>

definition region_data :: "string \<Rightarrow> string list \<Rightarrow> string list list" where
  "region_data c ls = filter (\<lambda>d. d ! 0 = c) (map tokens ls)"

text \<open>
  The position of the first structure with code \<open>c\<close> in a registry (its length when
  there is none), and that structure.
\<close>

fun index_of :: "string \<Rightarrow> climate_info list \<Rightarrow> nat" where
  "index_of c [] = 0"
| "index_of c (s # ss) = (if c = code s then 0 else Suc (index_of c ss))"

definition lookup :: "string \<Rightarrow> climate_info list \<Rightarrow> climate_info option" where
  "lookup c infos = find (\<lambda>s. code s = c) infos"

subsection \<open>The aggregation loop of the draft \<open>climate copy.c\<close>\<close>









section \<open>Evaluation of the library functions\<close>


section \<open>The array of \<open>climate.c\<close> holds the registry\<close>

lemma array_of_length [simp]: "length infos \<le> n \<Longrightarrow> length (array_of n infos) = n"
  by (simp add: array_of_def)

lemma array_of_nth_Some: "i < length infos \<Longrightarrow> array_of n infos ! i = Some (infos ! i)"
  by (simp add: array_of_def nth_append)

lemma array_of_nth_None:
  "length infos \<le> i \<Longrightarrow> i < n \<Longrightarrow> array_of n infos ! i = None"
  by (simp add: array_of_def nth_append)

lemma array_of_update:
  "i < length infos \<Longrightarrow> (array_of n infos)[i := Some x] = array_of n (infos[i := x])"
  by (simp add: array_of_def list_update_append map_update)

lemma array_of_append:
  "length infos < n \<Longrightarrow> (array_of n infos)[length infos := Some x] = array_of n (infos @ [x])"
proof -
  assume lt: "length infos < n"
  then obtain k where k: "n - length infos = Suc k" by (cases "n - length infos") auto
  then have "n - Suc (length infos) = k" by simp
  then show ?thesis using k by (simp add: array_of_def list_update_append)
qed

lemma index_of_le: "index_of c infos \<le> length infos"
  by (induction infos) auto

lemma index_of_code:
  "index_of c infos < length infos \<Longrightarrow> code (infos ! index_of c infos) = c"
  by (induction infos) auto

lemma index_of_first:
  "j < index_of c infos \<Longrightarrow> code (infos ! j) \<noteq> c"
proof (induction infos arbitrary: j)
  case Nil then show ?case by simp
next
  case (Cons s ss) then show ?case by (cases j) (auto split: if_splits)
qed

lemma index_of_absent:
  "index_of c infos = length infos \<longleftrightarrow> c \<notin> set (map code infos)"
  using index_of_le [of c] by (induction infos) (auto simp: le_Suc_eq)

lemma scan_array_of_from:
  "length (pre @ infos) \<le> n \<Longrightarrow>
   scan n (array_of n (pre @ infos)) c (length pre) = Inr (length pre + index_of c infos)"
proof (induction infos arbitrary: pre)
  case Nil
  show ?case
  proof (cases "length pre < n")
    case True
    then show ?thesis using Nil
      by (subst scan.simps) (simp add: array_of_nth_None)
  next
    case False
    then show ?thesis by (subst scan.simps) simp
  qed
next
  case (Cons s ss)
  have lt: "length pre < n" using Cons.prems by simp
  have nth: "array_of n (pre @ s # ss) ! length pre = Some s"
    using array_of_nth_Some [of "length pre" "pre @ s # ss" n] by simp
  have ih: "scan n (array_of n (pre @ s # ss)) c (length pre + 1)
            = Inr (length pre + 1 + index_of c ss)"
    using Cons.IH [of "pre @ [s]"] Cons.prems by simp
  show ?case
    using lt nth ih Cons.prems by (subst scan.simps) simp
qed

lemma scan_array_of:
  "length infos \<le> n \<Longrightarrow> scan n (array_of n infos) c 0 = Inr (index_of c infos)"
  using scan_array_of_from [of "[]" infos n c] by simp

lemma registry_observe_present:
  "index_of (data ! 0) infos < length infos \<Longrightarrow>
   registry_observe infos data
     = infos[index_of (data ! 0) infos := update_info (infos ! index_of (data ! 0) infos) data]"
  by (induction infos) auto

lemma registry_observe_absent:
  "index_of (data ! 0) infos = length infos \<Longrightarrow>
   registry_observe infos data = infos @ [init_info data]"
  by (induction infos) (auto split: if_splits)

lemma length_registry_observe:
  "length (registry_observe infos data)
     = (if index_of (data ! 0) infos < length infos then length infos else Suc (length infos))"
  using index_of_le [of "data ! 0" infos]
  by (cases "index_of (data ! 0) infos < length infos")
     (simp_all add: registry_observe_present registry_observe_absent)

lemma analyze_line_registry:
  assumes "defined_line line" and "length (registry_observe infos (tokens line)) \<le> n"
  shows "analyze_line n (array_of n infos) line
           = Inr (array_of n (registry_observe infos (tokens line)))"
proof -
  let ?d = "tokens line"
  let ?i = "index_of (?d ! 0) infos"
  have d: "length ?d = 9" "length (?d ! 0) \<le> 2" "\<not> atof_special (?d ! 8)"
    "\<not> atof_special (?d ! 3)" "\<not> atof_special (?d ! 5)"
    using assms(1) by (simp_all add: defined_line_def Let_def)
  have ne: "?d \<noteq> []" using d(1) by auto
  have len: "length infos \<le> n" using assms(2) by (simp add: length_registry_observe split: if_splits)
  have sc: "scan n (array_of n infos) (?d ! 0) 0 = Inr ?i" using len by (rule scan_array_of)
  show ?thesis
  proof (cases "?i < length infos")
    case True
    then show ?thesis using d ne sc len
      by (simp add: analyze_line_def Let_def array_of_nth_Some array_of_update
          registry_observe_present)
  next
    case False
    then have eq: "?i = length infos" using index_of_le [of "?d ! 0" infos] by simp
    then have lt: "length infos < n" using assms(2) by (simp add: length_registry_observe)
    show ?thesis using d ne sc lt eq
      by (simp add: analyze_line_def Let_def array_of_nth_None array_of_append
          registry_observe_absent)
  qed
qed

lemma analyze_line_full:
  assumes "tokens line \<noteq> []" and "length (tokens line) \<le> 9"
    and "length infos = n" and "tokens line ! 0 \<notin> set (map code infos)"
  shows "analyze_line n (array_of n infos) line = Inl StatesOutOfBounds"
proof -
  have "index_of (tokens line ! 0) infos = n" using assms(3,4) index_of_absent by blast
  then have "scan n (array_of n infos) (tokens line ! 0) 0 = Inr n"
    using scan_array_of [of infos n] assms(3) by simp
  then show ?thesis using assms by (simp add: analyze_line_def Let_def)
qed

lemma length_foldl_registry_observe:
  "length infos \<le> length (foldl registry_observe infos ds)"
proof (induction ds arbitrary: infos)
  case Nil show ?case by simp
next
  case (Cons d ds)
  have "length infos \<le> length (registry_observe infos d)"
    by (simp add: length_registry_observe)
  then show ?case using Cons.IH [of "registry_observe infos d"] by simp
qed

lemma analyze_file_registry:
  assumes "\<forall>l \<in> set ls. defined_line l"
    and "length (foldl registry_observe infos (map tokens ls)) \<le> n"
  shows "analyze_file n (array_of n infos) ls
           = Inr (array_of n (foldl registry_observe infos (map tokens ls)))"
  using assms
proof (induction ls arbitrary: infos)
  case Nil show ?case by simp
next
  case (Cons l ls)
  have "length (registry_observe infos (tokens l)) \<le> n"
    using length_foldl_registry_observe [of "registry_observe infos (tokens l)" "map tokens ls"]
      Cons.prems(2) by simp
  then have "analyze_line n (array_of n infos) l
               = Inr (array_of n (registry_observe infos (tokens l)))"
    using Cons.prems(1) by (simp add: analyze_line_registry)
  then show ?case using Cons.IH [of "registry_observe infos (tokens l)"] Cons.prems by simp
qed

lemma initial_states_array: "initial_states = array_of NUM_STATES []"
  by (simp add: initial_states_def array_of_def)

section \<open>The registry after a sequence of observations\<close>

lemma code_update_info [simp]: "code (update_info s data) = code s"
  by (simp add: update_info_def Let_def)

lemma code_init_info [simp]: "code (init_info data) = data ! 0"
  by (simp add: init_info_def)

lemma codes_registry_observe:
  "map code (registry_observe infos data)
     = (if data ! 0 \<in> set (map code infos) then map code infos
        else map code infos @ [data ! 0])"
  by (induction infos) auto

lemma first_seen_from_cong:
  "set a = set b \<Longrightarrow> first_seen_from a xs = first_seen_from b xs"
proof (induction xs arbitrary: a b)
  case Nil show ?case by simp
next
  case (Cons x xs)
  then have "first_seen_from (x # a) xs = first_seen_from (x # b) xs"
    by (intro Cons.IH) simp
  moreover have "first_seen_from a xs = first_seen_from b xs"
    using Cons.prems by (rule Cons.IH)
  ultimately show ?case using Cons.prems by simp
qed

lemma set_first_seen_from: "set (first_seen_from seen xs) = set xs - set seen"
  by (induction xs arbitrary: seen) auto

lemma distinct_first_seen_from: "distinct (first_seen_from seen xs)"
  by (induction xs arbitrary: seen) (auto simp: set_first_seen_from)

lemma set_first_seen: "set (first_seen xs) = set xs"
  by (simp add: first_seen_def set_first_seen_from)

lemma distinct_first_seen: "distinct (first_seen xs)"
  by (simp add: first_seen_def distinct_first_seen_from)

lemma length_first_seen: "length (first_seen xs) = card (set xs)"
  using distinct_card [OF distinct_first_seen, of xs] by (simp add: set_first_seen)

lemma codes_foldl_registry_observe:
  "map code (foldl registry_observe infos ds)
     = map code infos @ first_seen_from (map code infos) (map (\<lambda>d. d ! 0) ds)"
proof (induction ds arbitrary: infos)
  case Nil show ?case by simp
next
  case (Cons d ds)
  show ?case
  proof (cases "d ! 0 \<in> set (map code infos)")
    case True
    then show ?thesis using Cons.IH [of "registry_observe infos d"]
      by (simp add: codes_registry_observe)
  next
    case False
    have "first_seen_from (map code infos @ [d ! 0]) (map (\<lambda>d. d ! 0) ds)
            = first_seen_from (d ! 0 # map code infos) (map (\<lambda>d. d ! 0) ds)"
      by (rule first_seen_from_cong) auto
    then show ?thesis using False Cons.IH [of "registry_observe infos d"]
      by (simp add: codes_registry_observe)
  qed
qed

lemma codes_registry:
  "map code (foldl registry_observe [] ds) = first_seen (map (\<lambda>d. d ! 0) ds)"
  by (simp add: codes_foldl_registry_observe first_seen_def)

lemma length_registry:
  "length (foldl registry_observe [] ds) = card (set (map (\<lambda>d. d ! 0) ds))"
  using length_first_seen [of "map (\<lambda>d. d ! 0) ds"] codes_registry [of ds]
  by (metis length_map)

lemma lookup_registry_observe:
  "lookup c (registry_observe infos d)
     = (if d ! 0 = c
        then Some (case lookup c infos of None \<Rightarrow> init_info d | Some s \<Rightarrow> update_info s d)
        else lookup c infos)"
  by (induction infos) (auto simp: lookup_def)

lemma lookup_foldl_registry_observe:
  "lookup c (foldl registry_observe infos ds)
     = (case lookup c infos of
          Some s \<Rightarrow> Some (foldl update_info s (filter (\<lambda>d. d ! 0 = c) ds))
        | None \<Rightarrow>
            (case filter (\<lambda>d. d ! 0 = c) ds of
               [] \<Rightarrow> None
             | d # r \<Rightarrow> Some (foldl update_info (init_info d) r)))"
proof (induction ds arbitrary: infos)
  case Nil show ?case by (simp split: option.splits)
next
  case (Cons d ds)
  show ?case
    using Cons.IH [of "registry_observe infos d"]
    by (simp add: lookup_registry_observe split: option.splits)
qed

lemma lookup_registry:
  "filter (\<lambda>d. d ! 0 = c) ds = d # r \<Longrightarrow>
   lookup c (foldl registry_observe [] ds) = Some (foldl update_info (init_info d) r)"
proof -
  assume f: "filter (\<lambda>d. d ! 0 = c) ds = d # r"
  have "lookup c [] = None" by (simp add: lookup_def)
  then show ?thesis using lookup_foldl_registry_observe [of c "[]" ds] f by simp
qed

lemma lookup_unique:
  assumes "distinct (map code infos)" and "lookup c infos = Some info"
  shows "\<exists>i < length infos. infos ! i = info \<and> code info = c
           \<and> (\<forall>j < length infos. code (infos ! j) = c \<longrightarrow> j = i)"
proof -
  from assms(2) obtain i where i: "i < length infos" "infos ! i = info" "code info = c"
    by (auto simp: lookup_def find_Some_iff)
  have "\<forall>j < length infos. code (infos ! j) = c \<longrightarrow> j = i"
  proof (intro allI impI)
    fix j assume j: "j < length infos" "code (infos ! j) = c"
    then have "map code infos ! j = map code infos ! i" using i by simp
    moreover have "j < length (map code infos)" "i < length (map code infos)"
      using i(1) j(1) by simp_all
    ultimately show "j = i" using assms(1) by (simp only: nth_eq_iff_index_eq)
  qed
  then show ?thesis using i by blast
qed

subsection \<open>What a run of updates does to one structure\<close>

lemma num_records_update_info [simp]:
  "num_records (update_info s data) = num_records s + 1"
  by (simp add: update_info_def Let_def)

lemma num_records_init_info [simp]: "num_records (init_info data) = 1"
  by (simp add: init_info_def)

lemma num_records_foldl:
  "num_records (foldl update_info s ds) = num_records s + of_nat (length ds)"
  by (induction ds arbitrary: s) (simp_all add: algebra_simps)









section \<open>Results of a run from the empty array\<close>

lemma regions_of_lines: "map (\<lambda>d. d ! 0) (map tokens ls) = map region ls"
  by (simp add: region_def)

lemma run_result:
  assumes "\<forall>l \<in> set ls. defined_line l" and "card (set (map region ls)) \<le> NUM_STATES"
  shows "analyze_file NUM_STATES initial_states ls
           = Inr (array_of NUM_STATES (foldl registry_observe [] (map tokens ls)))"
proof -
  have "length (foldl registry_observe [] (map tokens ls)) \<le> NUM_STATES"
    using assms(2) length_registry [of "map tokens ls"] by (simp only: regions_of_lines)
  then show ?thesis
    using analyze_file_registry [OF assms(1), of "[]" NUM_STATES]
    by (simp only: initial_states_array)
qed

lemma registry_codes:
  "map code (foldl registry_observe [] (map tokens ls)) = first_seen (map region ls)"
  using codes_registry [of "map tokens ls"] by (simp only: regions_of_lines)

lemma registry_length:
  "length (foldl registry_observe [] (map tokens ls)) = card (set (map region ls))"
  using length_registry [of "map tokens ls"] by (simp only: regions_of_lines)

lemma region_data_nonempty:
  "c \<in> set (map region ls) \<Longrightarrow> \<exists>d r. region_data c ls = d # r"
proof -
  assume "c \<in> set (map region ls)"
  then obtain l where "l \<in> set ls" "tokens l ! 0 = c" by (auto simp: region_def)
  then have "tokens l \<in> set (region_data c ls)" by (simp add: region_data_def)
  then show ?thesis by (cases "region_data c ls") auto
qed

lemma region_entry:
  assumes "\<forall>l \<in> set ls. defined_line l" and "card (set (map region ls)) \<le> NUM_STATES"
    and "region_data c ls = d # r"
  shows "\<exists>sts i. analyze_file NUM_STATES initial_states ls = Inr sts
           \<and> i < NUM_STATES
           \<and> sts ! i = Some (foldl update_info (init_info d) r)
           \<and> (\<forall>j info. j < NUM_STATES \<and> sts ! j = Some info \<and> code info = c \<longrightarrow> j = i)"
proof -
  let ?reg = "foldl registry_observe [] (map tokens ls)"
  let ?info = "foldl update_info (init_info d) r"
  have len: "length ?reg \<le> NUM_STATES" using assms(2) by (simp only: registry_length)
  have "distinct (map code ?reg)" by (simp only: registry_codes distinct_first_seen)
  moreover have "lookup c ?reg = Some ?info"
    using assms(3) by (intro lookup_registry) (simp add: region_data_def)
  ultimately obtain i where i: "i < length ?reg" "?reg ! i = ?info"
    and uniq: "\<forall>j < length ?reg. code (?reg ! j) = c \<longrightarrow> j = i"
    using lookup_unique by blast
  have "\<forall>j info. j < NUM_STATES \<and> array_of NUM_STATES ?reg ! j = Some info \<and> code info = c
          \<longrightarrow> j = i"
  proof (intro allI impI)
    fix j info
    assume a: "j < NUM_STATES \<and> array_of NUM_STATES ?reg ! j = Some info \<and> code info = c"
    show "j = i"
    proof (cases "j < length ?reg")
      case True
      then show ?thesis using a uniq by (simp add: array_of_nth_Some)
    next
      case False
      then have "array_of NUM_STATES ?reg ! j = None"
        using a by (intro array_of_nth_None) simp_all
      then show ?thesis using a by simp
    qed
  qed
  moreover have "array_of NUM_STATES ?reg ! i = Some ?info"
    using i by (simp add: array_of_nth_Some)
  moreover have "i < NUM_STATES" using i(1) len by simp
  ultimately show ?thesis using run_result [OF assms(1,2)] by blast
qed


text \<open>
  C4. For every sequence of lines whose behaviour is defined, with at most \<open>NUM_STATES\<close>
  distinct state codes, and every state code \<open>c\<close> that occurs in it: the \<open>num_records\<close> of
  the one structure with code \<open>c\<close> is the number of lines of \<open>c\<close>, as a 64-bit unsigned
  value, so it equals that number whenever the number is below \<open>2 ^ 64\<close>; equal lines
  are counted each time. When all lines share one code the number is the length of the
  input. The first line of a code sets the count to 1 and each later one adds 1.
\<close>

theorem record_count_counts_observations:
  assumes "\<forall>l \<in> set ls. defined_line l"
    and "card (set (map region ls)) \<le> NUM_STATES"
    and "c \<in> set (map region ls)"
  shows "\<exists>sts i info.
           analyze_file NUM_STATES initial_states ls = Inr sts
           \<and> i < NUM_STATES \<and> sts ! i = Some info \<and> code info = c
           \<and> (\<forall>j info'. j < NUM_STATES \<and> sts ! j = Some info' \<and> code info' = c \<longrightarrow> j = i)
           \<and> num_records info = of_nat (length (region_data c ls))
           \<and> (length (region_data c ls) < 2 ^ 64
                \<longrightarrow> unat (num_records info) = length (region_data c ls))
           \<and> ((\<forall>l \<in> set ls. region l = c) \<longrightarrow> length (region_data c ls) = length ls)
           \<and> num_records (init_info data) = 1
           \<and> num_records (update_info s data) = num_records s + 1"
proof -
  obtain d r where dr: "region_data c ls = d # r"
    using region_data_nonempty [OF assms(3)] by blast
  let ?info = "foldl update_info (init_info d) r"
  obtain sts i where run: "analyze_file NUM_STATES initial_states ls = Inr sts"
    "i < NUM_STATES" "sts ! i = Some ?info"
    "\<forall>j info. j < NUM_STATES \<and> sts ! j = Some info \<and> code info = c \<longrightarrow> j = i"
    using region_entry [OF assms(1,2) dr] by blast
  have "d \<in> set (region_data c ls)" using dr by simp
  then have c: "d ! 0 = c" by (simp add: region_data_def)
  have code: "code ?info = c"
  proof -
    have "code (foldl update_info s r) = code s" for s
      by (induction r arbitrary: s) simp_all
    then show ?thesis using c by simp
  qed
  have n: "num_records ?info = of_nat (length (d # r))"
    by (simp add: num_records_foldl)
  have "length (d # r) < 2 ^ 64 \<longrightarrow> unat (num_records ?info) = length (d # r)"
    unfolding n by (simp add: unat_of_nat del: of_nat_Suc)
  moreover have "(\<forall>l \<in> set ls. region l = c) \<longrightarrow> length (d # r) = length ls"
    unfolding dr [symmetric] by (simp add: region_data_def region_def)
  ultimately show ?thesis
    using run code n num_records_init_info [of data] num_records_update_info [of s data]
    unfolding dr by blast
qed

subsection \<open>One iteration of the loop\<close>

lemma analyze_line_Inr:
  assumes "analyze_line n sts line = Inr sts'"
  shows "\<exists>val. scan n sts (region line) 0 = Inr val \<and> val < length sts
           \<and> length (tokens line) = 9
           \<and> ((sts ! val = None \<and> sts' = sts[val := Some (init_info (tokens line))])
                \<or> (\<exists>s. sts ! val = Some s
                      \<and> sts' = sts[val := Some (update_info s (tokens line))]))"
proof -
  obtain val where sc: "scan n sts (tokens line ! 0) 0 = Inr val"
    using assms by (cases "scan n sts (tokens line ! 0) 0")
      (auto simp: analyze_line_def Let_def split: if_splits)
  have val: "val < length sts" and len: "length (tokens line) = 9"
    using assms sc by (auto simp: analyze_line_def Let_def split: if_splits)
  show ?thesis
  proof (cases "sts ! val")
    case None
    then have "sts' = sts[val := Some (init_info (tokens line))]"
      using assms sc by (auto simp: analyze_line_def Let_def split: if_splits)
    then show ?thesis using sc val len None by (auto simp: region_def)
  next
    case (Some s)
    then have "sts' = sts[val := Some (update_info s (tokens line))]"
      using assms sc by (auto simp: analyze_line_def Let_def split: if_splits)
    then show ?thesis using sc val len Some by (auto simp: region_def)
  qed
qed

lemma scan_result:
  "scan n sts c val = Inr v \<Longrightarrow> v < length sts \<Longrightarrow>
   sts ! v = None \<or> (\<exists>s. sts ! v = Some s \<and> (code s = c \<or> n \<le> v))"
proof (induction n sts c val rule: scan.induct)
  case (1 n sts c val)
  show ?case
  proof (cases "val < n \<and> val < length sts")
    case False
    then show ?thesis using "1.prems" by (subst (asm) scan.simps) (auto split: if_splits)
  next
    case True
    show ?thesis
    proof (cases "sts ! val")
      case None
      then show ?thesis using True "1.prems" by (subst (asm) scan.simps) auto
    next
      case (Some s)
      show ?thesis
      proof (cases "c = code s")
        case True
        then show ?thesis using \<open>val < n \<and> val < length sts\<close> Some "1.prems"
          by (subst (asm) scan.simps) auto
      next
        case False
        then have "scan n sts c (val + 1) = Inr v"
          using True Some "1.prems"(1) by (subst (asm) scan.simps) simp
        then show ?thesis using "1.IH" [of s] True Some False "1.prems"(2) by simp
      qed
    qed
  qed
qed

lemma length_analyze_line: "analyze_line n sts line = Inr sts' \<Longrightarrow> length sts' = length sts"
  using analyze_line_Inr by fastforce

lemma length_analyze_file: "analyze_file n sts ls = Inr sts' \<Longrightarrow> length sts' = length sts"
proof (induction ls arbitrary: sts)
  case Nil then show ?case by simp
next
  case (Cons l ls)
  then show ?case by (auto split: sum.splits dest: length_analyze_line)
qed

lemma analyze_file_append:
  "analyze_file n sts (a @ b)
     = (case analyze_file n sts a of Inl e \<Rightarrow> Inl e | Inr sts' \<Rightarrow> analyze_file n sts' b)"
  by (induction a arbitrary: sts) (simp_all split: sum.splits)

lemma analyze_file_prefix:
  assumes "analyze_file n sts ls = Inr sts'"
  shows "\<exists>mid. analyze_file n sts (take k ls) = Inr mid"
proof (cases "analyze_file n sts (take k ls)")
  case (Inl e)
  have "analyze_file n sts (take k ls @ drop k ls) = Inl e"
    by (simp only: analyze_file_append Inl sum.case)
  then show ?thesis using assms by simp
next
  case (Inr mid)
  then show ?thesis by blast
qed

subsection \<open>The record counts stay positive\<close>

lemma unat_Suc_word:
  fixes w :: "64 word"
  assumes "unat w \<le> k" and "Suc k < 2 ^ 64"
  shows "unat (w + 1) = Suc (unat w)"
proof -
  have "unat w + unat (1 :: 64 word) < 2 ^ LENGTH(64)" using assms by simp
  then have "unat (w + 1) = unat w + unat (1 :: 64 word)" by (simp only: unat_add_lem [THEN iffD1])
  then show ?thesis by simp
qed

lemma counts_step:
  assumes "analyze_line n sts line = Inr sts'"
    and "\<forall>info. Some info \<in> set sts \<longrightarrow> 1 \<le> unat (num_records info) \<and> unat (num_records info) \<le> k"
    and "Suc k < 2 ^ 64"
  shows "\<forall>info. Some info \<in> set sts' \<longrightarrow> 1 \<le> unat (num_records info) \<and> unat (num_records info) \<le> Suc k"
proof (intro allI impI)
  fix info assume mem: "Some info \<in> set sts'"
  obtain val where val: "val < length sts"
    and br: "(sts ! val = None \<and> sts' = sts[val := Some (init_info (tokens line))])
             \<or> (\<exists>s. sts ! val = Some s \<and> sts' = sts[val := Some (update_info s (tokens line))])"
    using analyze_line_Inr [OF assms(1)] by blast
  from br show "1 \<le> unat (num_records info) \<and> unat (num_records info) \<le> Suc k"
  proof
    assume a: "sts ! val = None \<and> sts' = sts[val := Some (init_info (tokens line))]"
    then have "Some info \<in> insert (Some (init_info (tokens line))) (set sts)"
      using mem set_update_subset_insert [of sts val] by blast
    then show ?thesis using assms(2) by (auto simp: init_info_def)
  next
    assume "\<exists>s. sts ! val = Some s \<and> sts' = sts[val := Some (update_info s (tokens line))]"
    then obtain s where s: "sts ! val = Some s"
      and sts': "sts' = sts[val := Some (update_info s (tokens line))]" by blast
    have "Some s \<in> set sts" using s val nth_mem [of val sts] by simp
    then have b: "1 \<le> unat (num_records s)" "unat (num_records s) \<le> k" using assms(2) by auto
    have u: "unat (num_records (update_info s (tokens line))) = Suc (unat (num_records s))"
      using unat_Suc_word [OF b(2) assms(3)] by (simp add: update_info_def Let_def)
    have "Some info \<in> insert (Some (update_info s (tokens line))) (set sts)"
      using mem sts' set_update_subset_insert [of sts val] by blast
    then show ?thesis using assms(2) u b by auto
  qed
qed

lemma counts_run:
  assumes "analyze_file n sts ls = Inr sts'"
    and "\<forall>info. Some info \<in> set sts \<longrightarrow> 1 \<le> unat (num_records info) \<and> unat (num_records info) \<le> k"
    and "k + length ls < 2 ^ 64"
  shows "\<forall>info. Some info \<in> set sts' \<longrightarrow> 1 \<le> unat (num_records info)
           \<and> unat (num_records info) \<le> k + length ls"
  using assms
proof (induction ls arbitrary: sts k)
  case Nil then show ?case by simp
next
  case (Cons l ls)
  from Cons.prems(1) obtain mid where mid: "analyze_line n sts l = Inr mid"
    and rest: "analyze_file n mid ls = Inr sts'"
    by (auto split: sum.splits)
  have "\<forall>info. Some info \<in> set mid \<longrightarrow> 1 \<le> unat (num_records info) \<and> unat (num_records info) \<le> Suc k"
    using counts_step [OF mid Cons.prems(2)] Cons.prems(3) by simp
  then show ?case using Cons.IH [OF rest, of "Suc k"] Cons.prems(3) by simp
qed

lemma summaries_ok:
  "\<forall>info. Some info \<in> set sts \<longrightarrow> num_records info \<noteq> 0 \<Longrightarrow>
   \<exists>bs. summaries sts = Inr bs \<and> map rep_code bs = found_codes sts"
proof (induction sts)
  case Nil show ?case by simp
next
  case (Cons x rest)
  then obtain bs where bs: "summaries rest = Inr bs" "map rep_code bs = found_codes rest"
    by auto
  show ?case
  proof (cases x)
    case None
    then show ?thesis using bs by simp
  next
    case (Some info)
    then have "num_records info \<noteq> 0" using Cons.prems by simp
    then show ?thesis using bs Some by (simp add: summary_def)
  qed
qed

lemma initial_states_empty: "Some info \<notin> set initial_states"
  by (simp add: initial_states_def)

lemma length_initial_states: "length initial_states = NUM_STATES"
  by (simp add: initial_states_def)

text \<open>
  C7. In every state that \<open>analyze_file\<close> reaches from the empty array on fewer than
  \<open>2 ^ 64\<close> lines, at the end of the input and after each of its lines, every structure
  in the array has \<open>num_records\<close> at least 1: a structure is created with count 1 and an
  update adds 1. So \<open>print_report\<close> never divides by zero: it prints the averages of
  every structure.
\<close>

theorem record_count_positive_no_division_by_zero:
  assumes "analyze_file NUM_STATES initial_states ls = Inr sts" and "length ls < 2 ^ 64"
  shows "(\<forall>info. Some info \<in> set sts \<longrightarrow> 1 \<le> unat (num_records info))
         \<and> (\<forall>k. \<exists>mid. analyze_file NUM_STATES initial_states (take k ls) = Inr mid
                \<and> (\<forall>info. Some info \<in> set mid \<longrightarrow> 1 \<le> unat (num_records info)))
         \<and> (\<exists>bs. print_report NUM_STATES sts
                    = Inr (Welcome # StatesFound (found_codes sts) # map StateSummary bs))
         \<and> num_records (init_info data) = 1
         \<and> num_records (update_info s data) = num_records s + 1
         \<and> print_report NUM_STATES sts \<noteq> Inl DivisionByZero"
proof -
  have pos: "\<forall>info. Some info \<in> set sts \<longrightarrow> 1 \<le> unat (num_records info)
               \<and> unat (num_records info) \<le> 0 + length ls"
    using counts_run [OF assms(1), of 0] assms(2) initial_states_empty by simp
  then have "\<forall>info. Some info \<in> set sts \<longrightarrow> num_records info \<noteq> 0" by fastforce
  then obtain bs where bs: "summaries sts = Inr bs" using summaries_ok by blast
  have len: "length sts = NUM_STATES"
    using length_analyze_file [OF assms(1)] length_initial_states by simp
  have "print_report NUM_STATES sts
          = Inr (Welcome # StatesFound (found_codes sts) # map StateSummary bs)"
    using bs len by (simp add: print_report_def)
  moreover have "\<forall>info. Some info \<in> set sts \<longrightarrow> 1 \<le> unat (num_records info)"
    using pos by blast
  moreover have "\<forall>k. \<exists>mid. analyze_file NUM_STATES initial_states (take k ls) = Inr mid
                \<and> (\<forall>info. Some info \<in> set mid \<longrightarrow> 1 \<le> unat (num_records info))"
  proof
    fix k
    obtain mid where mid: "analyze_file NUM_STATES initial_states (take k ls) = Inr mid"
      using analyze_file_prefix [OF assms(1)] by blast
    have "0 + length (take k ls) < (2 :: nat) ^ 64" using assms(2) by simp
    then have "\<forall>info. Some info \<in> set mid \<longrightarrow> 1 \<le> unat (num_records info)
                 \<and> unat (num_records info) \<le> 0 + length (take k ls)"
      using counts_run [OF mid, of 0] initial_states_empty by blast
    then show "\<exists>mid. analyze_file NUM_STATES initial_states (take k ls) = Inr mid
                \<and> (\<forall>info. Some info \<in> set mid \<longrightarrow> 1 \<le> unat (num_records info))"
      using mid by blast
  qed
  moreover have "num_records (init_info data) = 1" by (simp add: init_info_def)
  moreover have "num_records (update_info s data) = num_records s + 1"
    by (simp add: update_info_def Let_def)
  ultimately show ?thesis by auto
qed

subsection \<open>The order of the report\<close>

lemma found_codes_array_of: "found_codes (array_of n infos) = map code infos"
proof -
  have "found_codes (replicate k None) = []" for k by (induction k) simp_all
  moreover have "found_codes (map Some xs @ ys) = map code xs @ found_codes ys" for xs ys
    by (induction xs) simp_all
  ultimately show ?thesis by (simp add: array_of_def)
qed

text \<open>
  C3, amended. For every sequence of fewer than \<open>2 ^ 64\<close> lines whose behaviour is
  defined, with at most \<open>NUM_STATES\<close> (50) distinct state codes, the run succeeds and
  \<open>print_report\<close> lists the distinct state codes in the order in which each first
  appeared in the input, in the line of the states found and in the blocks that follow,
  however often a code recurs later.
\<close>

theorem report_lists_regions_in_first_seen_order:
  assumes "\<forall>l \<in> set ls. defined_line l"
    and "card (set (map region ls)) \<le> NUM_STATES"
    and "length ls < 2 ^ 64"
  shows "\<exists>sts bs.
           analyze_file NUM_STATES initial_states ls = Inr sts
           \<and> print_report NUM_STATES sts
               = Inr (Welcome # StatesFound (first_seen (map region ls)) # map StateSummary bs)
           \<and> map rep_code bs = first_seen (map region ls)"
proof -
  let ?reg = "foldl registry_observe [] (map tokens ls)"
  let ?sts = "array_of NUM_STATES ?reg"
  have run: "analyze_file NUM_STATES initial_states ls = Inr ?sts"
    using run_result [OF assms(1,2)] .
  have codes: "found_codes ?sts = first_seen (map region ls)"
    by (simp only: found_codes_array_of registry_codes)
  have pos: "\<forall>info. Some info \<in> set ?sts \<longrightarrow> 1 \<le> unat (num_records info)
               \<and> unat (num_records info) \<le> 0 + length ls"
    using counts_run [OF run, of 0] assms(3) initial_states_empty by simp
  then have "\<forall>info. Some info \<in> set ?sts \<longrightarrow> num_records info \<noteq> 0" by fastforce
  then obtain bs where bs: "summaries ?sts = Inr bs" "map rep_code bs = found_codes ?sts"
    using summaries_ok by blast
  have len: "length ?sts = NUM_STATES"
    using length_analyze_file [OF run] length_initial_states by simp
  have "print_report NUM_STATES ?sts
          = Inr (Welcome # StatesFound (found_codes ?sts) # map StateSummary bs)"
    using bs len by (simp add: print_report_def)
  then show ?thesis using run bs(2) unfolding codes by blast
qed

subsection \<open>The bound of the scan\<close>

text \<open>
  C10. When the lines read so far and the next line are defined and together have at most
  \<open>NUM_STATES\<close> (50) distinct state codes, the scan for the next line ends at an index
  below 50, which holds the structure with the line's code or is the first empty slot, all
  slots before it holding structures of other codes; the iteration then succeeds. When the
  lines read so far have 50 distinct codes and the next line brings a new one, the scan ends
  with \<open>val = 50\<close>, the length of the array, and the access to \<open>states[val]\<close> that
  follows is outside the array.
\<close>

theorem scan_in_bounds_up_to_fifty_regions:
  "((\<forall>l \<in> set (ls @ [line]). defined_line l)
      \<and> card (set (map region (ls @ [line]))) \<le> NUM_STATES
    \<longrightarrow> (\<exists>sts val. analyze_file NUM_STATES initial_states ls = Inr sts
           \<and> length sts = NUM_STATES
           \<and> scan NUM_STATES sts (region line) 0 = Inr val
           \<and> val < NUM_STATES
           \<and> (sts ! val = None \<or> (\<exists>s. sts ! val = Some s \<and> code s = region line))
           \<and> (\<forall>j < val. \<exists>s. sts ! j = Some s \<and> code s \<noteq> region line)
           \<and> (\<exists>sts'. analyze_line NUM_STATES sts line = Inr sts')))
   \<and> ((\<forall>l \<in> set (ls @ [line]). defined_line l)
        \<and> card (set (map region ls)) = NUM_STATES
        \<and> region line \<notin> set (map region ls)
      \<longrightarrow> (\<exists>sts. analyze_file NUM_STATES initial_states ls = Inr sts
             \<and> length sts = NUM_STATES
             \<and> scan NUM_STATES sts (region line) 0 = Inr NUM_STATES
             \<and> analyze_line NUM_STATES sts line = Inl StatesOutOfBounds))"
proof (intro conjI impI)
  let ?reg = "foldl registry_observe [] (map tokens ls)"
  let ?sts = "array_of NUM_STATES ?reg"
  let ?i = "index_of (region line) ?reg"
  assume a: "(\<forall>l \<in> set (ls @ [line]). defined_line l)
      \<and> card (set (map region (ls @ [line]))) \<le> NUM_STATES"
  then have def: "\<forall>l \<in> set ls. defined_line l" and dl: "defined_line line" by simp_all
  have "card (set (map region ls)) \<le> card (set (map region (ls @ [line])))"
    by (rule card_mono) auto
  then have card: "card (set (map region ls)) \<le> NUM_STATES" using a by simp
  have run: "analyze_file NUM_STATES initial_states ls = Inr ?sts"
    using run_result [OF def card] .
  have len: "length ?reg \<le> NUM_STATES" using card by (simp only: registry_length)
  have sc: "scan NUM_STATES ?sts (region line) 0 = Inr ?i"
    using len by (rule scan_array_of)
  have after: "length (registry_observe ?reg (tokens line)) \<le> NUM_STATES"
  proof -
    have "registry_observe ?reg (tokens line) = foldl registry_observe [] (map tokens (ls @ [line]))"
      by simp
    then show ?thesis using a by (simp only: registry_length)
  qed
  have step: "analyze_line NUM_STATES ?sts line
                = Inr (array_of NUM_STATES (registry_observe ?reg (tokens line)))"
    using analyze_line_registry [OF dl after] .
  have i_le: "?i \<le> length ?reg" by (rule index_of_le)
  have "?i < NUM_STATES \<and> (?sts ! ?i = None \<or> (\<exists>s. ?sts ! ?i = Some s \<and> code s = region line))"
  proof (cases "?i < length ?reg")
    case True
    then show ?thesis using len index_of_code [of "region line" ?reg]
      by (simp add: array_of_nth_Some)
  next
    case False
    then have eq: "?i = length ?reg" using i_le by simp
    then have "length (registry_observe ?reg (tokens line)) = Suc (length ?reg)"
      by (simp add: length_registry_observe region_def)
    then have "length ?reg < NUM_STATES" using after by simp
    then show ?thesis using eq by (simp add: array_of_nth_None)
  qed
  moreover have before: "\<forall>j < ?i. \<exists>s. ?sts ! j = Some s \<and> code s \<noteq> region line"
    using i_le index_of_first [of _ "region line" ?reg] by (simp add: array_of_nth_Some)
  ultimately show "\<exists>sts val. analyze_file NUM_STATES initial_states ls = Inr sts
           \<and> length sts = NUM_STATES
           \<and> scan NUM_STATES sts (region line) 0 = Inr val
           \<and> val < NUM_STATES
           \<and> (sts ! val = None \<or> (\<exists>s. sts ! val = Some s \<and> code s = region line))
           \<and> (\<forall>j < val. \<exists>s. sts ! j = Some s \<and> code s \<noteq> region line)
           \<and> (\<exists>sts'. analyze_line NUM_STATES sts line = Inr sts')"
    using run sc step len before by (intro exI [of _ ?sts] exI [of _ ?i]) simp
next
  let ?reg = "foldl registry_observe [] (map tokens ls)"
  let ?sts = "array_of NUM_STATES ?reg"
  assume a: "(\<forall>l \<in> set (ls @ [line]). defined_line l)
        \<and> card (set (map region ls)) = NUM_STATES
        \<and> region line \<notin> set (map region ls)"
  then have def: "\<forall>l \<in> set ls. defined_line l" and dl: "defined_line line" by simp_all
  have run: "analyze_file NUM_STATES initial_states ls = Inr ?sts"
    using run_result [OF def] a by simp
  have len: "length ?reg = NUM_STATES" using a by (simp only: registry_length)
  have absent: "tokens line ! 0 \<notin> set (map code ?reg)"
    using a by (simp only: registry_codes set_first_seen region_def) simp
  then have "index_of (region line) ?reg = NUM_STATES"
    using index_of_absent [of "region line" ?reg] len by (simp add: region_def)
  then have sc: "scan NUM_STATES ?sts (region line) 0 = Inr NUM_STATES"
    using scan_array_of [of ?reg NUM_STATES "region line"] len by simp
  have tl: "tokens line \<noteq> []" "length (tokens line) \<le> 9"
    using dl by (auto simp: defined_line_def Let_def)
  have "analyze_line NUM_STATES ?sts line = Inl StatesOutOfBounds"
    using analyze_line_full [OF tl len absent] .
  then show "\<exists>sts. analyze_file NUM_STATES initial_states ls = Inr sts
             \<and> length sts = NUM_STATES
             \<and> scan NUM_STATES sts (region line) 0 = Inr NUM_STATES
             \<and> analyze_line NUM_STATES sts line = Inl StatesOutOfBounds"
    using run sc len by (intro exI [of _ ?sts]) simp
qed

subsection \<open>Several input files\<close>

lemma main_loop_concat:
  "map fs names = map Some files \<Longrightarrow>
   main_loop fs sts names
     = (case analyze_file NUM_STATES sts (concat files) of
          Inl e \<Rightarrow> Inl e
        | Inr sts' \<Rightarrow> Inr (Some sts'))"
proof (induction names arbitrary: files sts)
  case Nil
  then show ?case by simp
next
  case (Cons name names)
  then obtain f rest where files: "files = f # rest" "fs name = Some f"
    "map fs names = map Some rest"
    by (cases files) auto
  show ?case
    using Cons.IH [OF files(3)] files(1,2)
    by (simp add: analyze_file_append split: sum.splits)
qed

text \<open>
  C5. When the files named on the command line can all be opened, \<open>main\<close> leaves the
  same array (every field of every structure, in the same slots) and gives the same exit
  status and the same report as it does on one file that holds the lines of these files
  concatenated in the order of the command line.
\<close>

theorem split_streams_same_result:
  assumes "map fs names = map Some files" and "names \<noteq> []"
    and "fs' name = Some (concat files)"
  shows "main_loop fs initial_states names = main_loop fs' initial_states [name]
         \<and> main fs prog names = main fs' prog [name]"
proof -
  have "main_loop fs initial_states names = main_loop fs' initial_states [name]"
    using main_loop_concat [OF assms(1)] assms(3) by (simp split: sum.splits)
  moreover have "\<not> 1 + length names < 2" using assms(2) by (cases names) simp_all
  ultimately show ?thesis by (simp add: main_def)
qed

subsection \<open>A file that cannot be opened\<close>

lemma main_loop_append:
  "main_loop fs sts (a @ b)
     = (case main_loop fs sts a of
          Inl e \<Rightarrow> Inl e
        | Inr None \<Rightarrow> Inr None
        | Inr (Some sts') \<Rightarrow> main_loop fs sts' b)"
  by (induction a arbitrary: sts) (simp_all split: sum.splits option.splits)

text \<open>
  C8. When a file named on the command line cannot be opened, and the files named before it
  were opened and read, \<open>main\<close> prints the error message and returns \<open>EXIT_FAILURE\<close>,
  which is not 0; whatever files are named after it, nothing else is printed: they are not
  read and there is no report.
\<close>

theorem missing_file_aborts_run:
  assumes "fs name = None"
    and "main_loop fs initial_states before = Inr (Some sts)"
  shows "main fs prog (before @ name # rest) = Inr (EXIT_FAILURE, [FileMissing])
         \<and> EXIT_FAILURE \<noteq> 0"
  using assms by (simp add: main_def main_loop_append EXIT_FAILURE_def)

subsection \<open>No line is skipped\<close>





section \<open>The sample inputs\<close>

lemma strtok_field:
  assumes "t \<noteq> []" and "TAB \<notin> set t"
  shows "strtok (t @ TAB # rest) = Some (t, rest)"
proof -
  obtain a t' where t: "t = a # t'" using assms(1) by (cases t) auto
  then have "a \<noteq> TAB" using assms(2) by auto
  then have d: "dropWhile (\<lambda>c. c = TAB) (t @ TAB # rest) = t @ TAB # rest" using t by simp
  have "takeWhile (\<lambda>c. c \<noteq> TAB) (t @ TAB # rest) = t"
    using assms(2) by (subst takeWhile_append2) auto
  moreover have "dropWhile (\<lambda>c. c \<noteq> TAB) (t @ TAB # rest) = TAB # rest"
    using assms(2) by (subst dropWhile_append2) auto
  ultimately show ?thesis using d t by (simp add: strtok_def Let_def)
qed

lemma tokens_field:
  "t \<noteq> [] \<Longrightarrow> TAB \<notin> set t \<Longrightarrow> tokens (t @ TAB # rest) = t # tokens rest"
  by (subst tokens.simps) (simp add: strtok_field)

lemma tokens_last_field:
  assumes "TAB \<notin> set t"
  shows "tokens (t @ [NL]) = [t @ [NL]]"
proof -
  have nt: "NL \<noteq> TAB" by (simp add: NL_def TAB_def)
  have all: "\<forall>c \<in> set (t @ [NL]). c \<noteq> TAB" using assms nt by auto
  then have d: "dropWhile (\<lambda>c. c = TAB) (t @ [NL]) = t @ [NL]"
    by (cases t) auto
  have "takeWhile (\<lambda>c. c \<noteq> TAB) (t @ [NL]) = t @ [NL]"
    using all by (simp only: takeWhile_eq_all_conv) 
  moreover have "dropWhile (\<lambda>c. c \<noteq> TAB) (t @ [NL]) = []"
    using all by (simp only: dropWhile_eq_Nil_conv)
  moreover have "strtok [] = None" by (simp add: strtok_def)
  ultimately have "strtok (t @ [NL]) = Some (t @ [NL], [])"
    using d by (simp add: strtok_def Let_def)
  moreover have "tokens [] = []" by (subst tokens.simps) (simp add: strtok_def)
  ultimately show ?thesis by (subst tokens.simps) simp
qed

lemma tokens_record_line:
  assumes "c \<noteq> []" "TAB \<notin> set c" "m \<noteq> []" "TAB \<notin> set m" "TAB \<notin> set k"
  shows "tokens (record_line c m k)
           = [c, m, ''9prcjqk3yc80'', ''93.0'', ''0.0'', ''100.0'', ''1.0'', ''95644.0'', k @ [NL]]"
proof -
  have tab: "TAB \<notin> set ''9prcjqk3yc80''" "TAB \<notin> set ''93.0''" "TAB \<notin> set ''0.0''"
    "TAB \<notin> set ''100.0''" "TAB \<notin> set ''1.0''" "TAB \<notin> set ''95644.0''"
    by (simp_all add: TAB_def)
  have ne: "''9prcjqk3yc80'' \<noteq> []" "''93.0'' \<noteq> []" "''0.0'' \<noteq> []"
    "''100.0'' \<noteq> []" "''1.0'' \<noteq> []" "''95644.0'' \<noteq> []"
    by simp_all
  show ?thesis
    unfolding record_line_def
    by (simp only: tdv_line.simps tokens_field tokens_last_field tab ne assms simp_thms)
qed

lemma region_record_line:
  "c \<noteq> [] \<Longrightarrow> TAB \<notin> set c \<Longrightarrow> m \<noteq> [] \<Longrightarrow> TAB \<notin> set m \<Longrightarrow> TAB \<notin> set k \<Longrightarrow>
   region (record_line c m k) = c"
  by (simp add: region_def tokens_record_line)

lemma defined_record_line:
  assumes "c \<noteq> []" "TAB \<notin> set c" "m \<noteq> []" "TAB \<notin> set m" "TAB \<notin> set k"
    and "length c \<le> 2" and "\<not> atof_special (k @ [NL])"
  shows "defined_line (record_line c m k)"
proof -
  have "\<not> atof_special ''93.0''" "\<not> atof_special ''100.0''"
    by (simp_all add: atof_special_def split_sign_def isspace_c_def)
  then show ?thesis using assms(6,7)
    by (simp add: defined_line_def tokens_record_line [OF assms(1-5)])
qed

lemma sample_tokens:
  "tokens sample_285 = [''CA'', ''1428300000000'', ''9prcjqk3yc80'', ''93.0'', ''0.0'',
     ''100.0'', ''1.0'', ''95644.0'', ''285.0'' @ [NL]]"
  "tokens line_tx_300 = [''TX'', ''1428400000000'', ''9prcjqk3yc80'', ''93.0'', ''0.0'',
     ''100.0'', ''1.0'', ''95644.0'', ''300.0'' @ [NL]]"
  "tokens line_ca_290_first = [''CA'', ''1428500000000'', ''9prcjqk3yc80'', ''93.0'', ''0.0'',
     ''100.0'', ''1.0'', ''95644.0'', ''290.0'' @ [NL]]"
  "tokens line_ca_290_later = [''CA'', ''1428600000000'', ''9prcjqk3yc80'', ''93.0'', ''0.0'',
     ''100.0'', ''1.0'', ''95644.0'', ''290.0'' @ [NL]]"
  "tokens line_wa_280 = [''WA'', ''1428700000000'', ''9prcjqk3yc80'', ''93.0'', ''0.0'',
     ''100.0'', ''1.0'', ''95644.0'', ''280.0'' @ [NL]]"
  by (simp_all add: sample_285_def line_tx_300_def line_ca_290_first_def line_ca_290_later_def
      line_wa_280_def tokens_record_line TAB_def)

lemma sample_defined:
  "defined_line sample_285" "defined_line line_tx_300" "defined_line line_ca_290_first"
  "defined_line line_ca_290_later" "defined_line line_wa_280"
  by (simp_all add: defined_line_def sample_tokens atof_special_def split_sign_def
      isspace_c_def NL_def)

lemma sample_regions:
  "region sample_285 = ''CA''" "region line_tx_300 = ''TX''"
  "region line_ca_290_first = ''CA''" "region line_ca_290_later = ''CA''"
  "region line_wa_280 = ''WA''"
  by (simp_all add: region_def sample_tokens)



section \<open>The theorems at sample inputs\<close>

lemma sample_codes:
  "tokens sample_285 ! 0 = ''CA''" "tokens line_tx_300 ! 0 = ''TX''"
  "tokens line_ca_290_first ! 0 = ''CA''" "tokens line_ca_290_later ! 0 = ''CA''"
  "tokens line_wa_280 ! 0 = ''WA''"
  by (simp_all add: sample_tokens)


theorem record_count_witness:
  "(\<exists>sts i info.
      analyze_file NUM_STATES initial_states [sample_285, sample_285, line_tx_300, sample_285]
        = Inr sts
      \<and> i < NUM_STATES \<and> sts ! i = Some info \<and> code info = ''CA''
      \<and> num_records info = 3 \<and> unat (num_records info) = 3)
   \<and> (\<exists>sts i info.
      analyze_file NUM_STATES initial_states [sample_285, sample_285, line_ca_290_first]
        = Inr sts
      \<and> i < NUM_STATES \<and> sts ! i = Some info \<and> code info = ''CA''
      \<and> unat (num_records info) = length [sample_285, sample_285, line_ca_290_first])"
proof
  let ?ls = "[sample_285, sample_285, line_tx_300, sample_285]"
  have h1: "\<forall>l \<in> set ?ls. defined_line l" by (simp add: sample_defined)
  have h2: "card (set (map region ?ls)) \<le> NUM_STATES"
    using card_length [of "map region ?ls"] by (simp add: NUM_STATES_def)
  have h3: "''CA'' \<in> set (map region ?ls)" by (simp add: sample_regions)
  have rd: "length (region_data ''CA'' ?ls) = 3"
    by (simp add: region_data_def sample_codes)
  obtain sts i info where r: "analyze_file NUM_STATES initial_states ?ls = Inr sts"
    "i < NUM_STATES" "sts ! i = Some info" "code info = ''CA''"
    "num_records info = of_nat (length (region_data ''CA'' ?ls))"
    "length (region_data ''CA'' ?ls) < 2 ^ 64
       \<longrightarrow> unat (num_records info) = length (region_data ''CA'' ?ls)"
    using record_count_counts_observations [OF h1 h2 h3] by blast
  have "num_records info = 3" using r(5) unfolding rd by simp
  moreover have "unat (num_records info) = 3" using r(6) unfolding rd by simp
  ultimately show "\<exists>sts i info. analyze_file NUM_STATES initial_states ?ls = Inr sts
      \<and> i < NUM_STATES \<and> sts ! i = Some info \<and> code info = ''CA''
      \<and> num_records info = 3 \<and> unat (num_records info) = 3"
    using r(1-4) by blast
next
  let ?ls = "[sample_285, sample_285, line_ca_290_first]"
  have h1: "\<forall>l \<in> set ?ls. defined_line l" by (simp add: sample_defined)
  have h2: "card (set (map region ?ls)) \<le> NUM_STATES"
    using card_length [of "map region ?ls"] by (simp add: NUM_STATES_def)
  have h3: "''CA'' \<in> set (map region ?ls)" by (simp add: sample_regions)
  have h4: "\<forall>l \<in> set ?ls. region l = ''CA''" by (simp add: sample_regions)
  obtain sts i info where r: "analyze_file NUM_STATES initial_states ?ls = Inr sts"
    "i < NUM_STATES" "sts ! i = Some info" "code info = ''CA''"
    "length (region_data ''CA'' ?ls) < 2 ^ 64
       \<longrightarrow> unat (num_records info) = length (region_data ''CA'' ?ls)"
    "(\<forall>l \<in> set ?ls. region l = ''CA'') \<longrightarrow> length (region_data ''CA'' ?ls) = length ?ls"
    using record_count_counts_observations [OF h1 h2 h3] by blast
  have len: "length (region_data ''CA'' ?ls) = length ?ls" using r(6) h4 by blast
  have "unat (num_records info) = length ?ls" using r(5) unfolding len by simp
  then show "\<exists>sts i info. analyze_file NUM_STATES initial_states ?ls = Inr sts
      \<and> i < NUM_STATES \<and> sts ! i = Some info \<and> code info = ''CA''
      \<and> unat (num_records info) = length ?ls"
    using r(1-4) by blast
qed

theorem first_seen_order_witness:
  "\<exists>sts bs.
     analyze_file NUM_STATES initial_states
       [sample_285, line_tx_300, line_ca_290_first, line_wa_280] = Inr sts
     \<and> print_report NUM_STATES sts
         = Inr (Welcome # StatesFound [''CA'', ''TX'', ''WA''] # map StateSummary bs)
     \<and> map rep_code bs = [''CA'', ''TX'', ''WA'']"
proof -
  let ?ls = "[sample_285, line_tx_300, line_ca_290_first, line_wa_280]"
  have h1: "\<forall>l \<in> set ?ls. defined_line l" by (simp add: sample_defined)
  have h2: "card (set (map region ?ls)) \<le> NUM_STATES"
    using card_length [of "map region ?ls"] by (simp add: NUM_STATES_def)
  have h3: "length ?ls < 2 ^ 64" by simp
  have fs: "first_seen (map region ?ls) = [''CA'', ''TX'', ''WA'']"
    by (simp add: sample_regions first_seen_def)
  show ?thesis
    using report_lists_regions_in_first_seen_order [OF h1 h2 h3] unfolding fs .
qed

subsection \<open>Fifty-one state codes\<close>

lemma codes50_facts:
  "length codes50 = 50" "distinct codes50" "''DC'' \<notin> set codes50"
  "\<forall>c \<in> set codes50. c \<noteq> [] \<and> TAB \<notin> set c \<and> length c \<le> 2"
  by (simp_all add: codes50_def TAB_def)

lemma lines50_defined: "\<forall>l \<in> set lines50. defined_line l"
proof -
  have k: "\<not> atof_special (''285.0'' @ [NL])"
    by (simp add: atof_special_def split_sign_def isspace_c_def NL_def)
  have m: "''1428300000000'' \<noteq> []" "TAB \<notin> set ''1428300000000''" "TAB \<notin> set ''285.0''"
    by (simp_all add: TAB_def)
  show ?thesis
    using codes50_facts(4) by (auto simp: lines50_def intro!: defined_record_line k m)
qed

lemma lines50_regions: "map region lines50 = codes50"
proof -
  have m: "''1428300000000'' \<noteq> []" "TAB \<notin> set ''1428300000000''" "TAB \<notin> set ''285.0''"
    by (simp_all add: TAB_def)
  have "\<forall>c \<in> set codes50. region (record_line c ''1428300000000'' ''285.0'') = c"
    using codes50_facts(4) by (auto intro!: region_record_line m)
  then show ?thesis by (simp add: lines50_def map_idI)
qed

lemma lines50_card: "card (set (map region lines50)) = NUM_STATES"
  using distinct_card [OF codes50_facts(2)] codes50_facts(1)
  by (simp add: lines50_regions NUM_STATES_def)

lemma line_dc_facts: "defined_line line_dc" "region line_dc = ''DC''"
proof -
  have m: "''DC'' \<noteq> []" "TAB \<notin> set ''DC''" "''1428300000000'' \<noteq> []"
    "TAB \<notin> set ''1428300000000''" "TAB \<notin> set ''285.0''"
    by (simp_all add: TAB_def)
  have k: "\<not> atof_special (''285.0'' @ [NL])"
    by (simp add: atof_special_def split_sign_def isspace_c_def NL_def)
  show "defined_line line_dc" unfolding line_dc_def
    by (rule defined_record_line [OF m _ k]) simp
  show "region line_dc = ''DC''" unfolding line_dc_def
    by (rule region_record_line [OF m])
qed

lemma fifty_first_region:
  "analyze_file NUM_STATES initial_states (lines50 @ [line_dc]) = Inl StatesOutOfBounds"
proof -
  let ?reg = "foldl registry_observe [] (map tokens lines50)"
  have run: "analyze_file NUM_STATES initial_states lines50 = Inr (array_of NUM_STATES ?reg)"
    using run_result [OF lines50_defined] lines50_card by simp
  have len: "length ?reg = NUM_STATES" using lines50_card by (simp only: registry_length)
  have "region line_dc \<notin> set (map code ?reg)"
    using codes50_facts(3)
    by (simp only: registry_codes set_first_seen lines50_regions line_dc_facts simp_thms)
  then have absent: "tokens line_dc ! 0 \<notin> set (map code ?reg)" unfolding region_def .
  have tl: "tokens line_dc \<noteq> []" "length (tokens line_dc) \<le> 9"
    using line_dc_facts(1) by (auto simp: defined_line_def Let_def)
  have "analyze_line NUM_STATES (array_of NUM_STATES ?reg) line_dc = Inl StatesOutOfBounds"
    using analyze_line_full [OF tl len absent] .
  then show ?thesis using run by (simp add: analyze_file_append)
qed

text \<open>
  C3 as stated fails for an input with 51 distinct state codes: the iteration for the 51st
  code accesses \<open>states[50]\<close>, outside the array, and the program has no report to
  give.
\<close>

theorem fifty_one_regions_no_report:
  "analyze_file NUM_STATES initial_states (lines50 @ [line_dc]) = Inl StatesOutOfBounds
   \<and> main fs51 ''climate'' [''us.tdv''] = Inl StatesOutOfBounds"
  using fifty_first_region by (simp add: main_def fs51_def)

theorem scan_in_bounds_witness:
  "(\<exists>sts val. analyze_file NUM_STATES initial_states [sample_285, line_tx_300] = Inr sts
       \<and> scan NUM_STATES sts (region line_ca_290_first) 0 = Inr val \<and> val < NUM_STATES
       \<and> (\<exists>sts'. analyze_line NUM_STATES sts line_ca_290_first = Inr sts'))
   \<and> (\<exists>sts. analyze_file NUM_STATES initial_states lines50 = Inr sts
         \<and> scan NUM_STATES sts (region line_dc) 0 = Inr NUM_STATES
         \<and> analyze_line NUM_STATES sts line_dc = Inl StatesOutOfBounds)"
proof
  let ?ls = "[sample_285, line_tx_300]"
  have h: "(\<forall>l \<in> set (?ls @ [line_ca_290_first]). defined_line l)
           \<and> card (set (map region (?ls @ [line_ca_290_first]))) \<le> NUM_STATES"
    using card_length [of "map region (?ls @ [line_ca_290_first])"]
    by (simp add: sample_defined NUM_STATES_def)
  show "\<exists>sts val. analyze_file NUM_STATES initial_states ?ls = Inr sts
       \<and> scan NUM_STATES sts (region line_ca_290_first) 0 = Inr val \<and> val < NUM_STATES
       \<and> (\<exists>sts'. analyze_line NUM_STATES sts line_ca_290_first = Inr sts')"
    using scan_in_bounds_up_to_fifty_regions [of ?ls line_ca_290_first, THEN conjunct1] h
    by blast
next
  have h: "(\<forall>l \<in> set (lines50 @ [line_dc]). defined_line l)
        \<and> card (set (map region lines50)) = NUM_STATES
        \<and> region line_dc \<notin> set (map region lines50)"
    using lines50_defined line_dc_facts lines50_card codes50_facts(3)
    by (simp add: lines50_regions)
  show "\<exists>sts. analyze_file NUM_STATES initial_states lines50 = Inr sts
         \<and> scan NUM_STATES sts (region line_dc) 0 = Inr NUM_STATES
         \<and> analyze_line NUM_STATES sts line_dc = Inl StatesOutOfBounds"
    using scan_in_bounds_up_to_fifty_regions [of lines50 line_dc, THEN conjunct2] h
    by blast
qed

subsection \<open>Runs of the sample files\<close>

theorem record_count_positive_witness:
  "\<exists>sts info bs.
     analyze_file NUM_STATES initial_states [sample_285, line_tx_300, sample_285] = Inr sts
     \<and> Some info \<in> set sts \<and> code info = ''CA'' \<and> 1 \<le> unat (num_records info)
     \<and> print_report NUM_STATES sts
         = Inr (Welcome # StatesFound (found_codes sts) # map StateSummary bs)
     \<and> print_report NUM_STATES sts \<noteq> Inl DivisionByZero"
proof -
  let ?ls = "[sample_285, line_tx_300, sample_285]"
  have h1: "\<forall>l \<in> set ?ls. defined_line l" by (simp add: sample_defined)
  have h2: "card (set (map region ?ls)) \<le> NUM_STATES"
    using card_length [of "map region ?ls"] by (simp add: NUM_STATES_def)
  have rd: "region_data ''CA'' ?ls = [tokens sample_285, tokens sample_285]"
    by (simp add: region_data_def sample_codes)
  obtain sts i where run: "analyze_file NUM_STATES initial_states ?ls = Inr sts"
    and i: "i < NUM_STATES"
      "sts ! i = Some (foldl update_info (init_info (tokens sample_285)) [tokens sample_285])"
    using region_entry [OF h1 h2 rd] by blast
  let ?info = "foldl update_info (init_info (tokens sample_285)) [tokens sample_285]"
  have "length sts = NUM_STATES"
    using length_analyze_file [OF run] length_initial_states by simp
  then have mem: "Some ?info \<in> set sts" using i nth_mem [of i sts] by simp
  have code: "code ?info = ''CA''" by (simp add: sample_codes)
  have small: "length ?ls < 2 ^ 64" by simp
  have all: "\<forall>info. Some info \<in> set sts \<longrightarrow> 1 \<le> unat (num_records info)"
    and rep: "\<exists>bs. print_report NUM_STATES sts
                = Inr (Welcome # StatesFound (found_codes sts) # map StateSummary bs)"
    and nz: "print_report NUM_STATES sts \<noteq> Inl DivisionByZero"
    using record_count_positive_no_division_by_zero [OF run small] by blast+
  have "1 \<le> unat (num_records ?info)" using all mem by blast
  then show ?thesis using run mem code rep nz by blast
qed

theorem split_streams_witness:
  "main_loop sample_fs initial_states [''a.tdv'', ''b.tdv'']
     = main_loop sample_fs initial_states [''ab.tdv'']
   \<and> main sample_fs ''climate'' [''a.tdv'', ''b.tdv''] = main sample_fs ''climate'' [''ab.tdv'']"
proof -
  let ?files = "[[sample_285, line_tx_300], [line_ca_290_first, line_wa_280]]"
  have h1: "map sample_fs [''a.tdv'', ''b.tdv''] = map Some ?files"
    by (simp add: sample_fs_def)
  have h2: "[''a.tdv'', ''b.tdv''] \<noteq> []" by simp
  have h3: "sample_fs ''ab.tdv'' = Some (concat ?files)" by (simp add: sample_fs_def)
  show ?thesis
    using split_streams_same_result [where fs = sample_fs and fs' = sample_fs
        and name = "''ab.tdv''" and prog = "''climate''", OF h1 h2 h3] .
qed

theorem missing_file_witness:
  "main sample_fs ''climate'' [''a.tdv'', ''missing.tdv'', ''b.tdv'']
     = Inr (EXIT_FAILURE, [FileMissing])"
proof -
  let ?ls = "[sample_285, line_tx_300]"
  have h1: "\<forall>l \<in> set ?ls. defined_line l" by (simp add: sample_defined)
  have h2: "card (set (map region ?ls)) \<le> NUM_STATES"
    using card_length [of "map region ?ls"] by (simp add: NUM_STATES_def)
  obtain sts where run: "analyze_file NUM_STATES initial_states ?ls = Inr sts"
    using run_result [OF h1 h2] by blast
  have missing: "sample_fs ''missing.tdv'' = None" by (simp add: sample_fs_def)
  have before: "main_loop sample_fs initial_states [''a.tdv''] = Inr (Some sts)"
    using run by (simp add: sample_fs_def)
  show ?thesis
    using missing_file_aborts_run [OF missing before, of "''climate''" "[''b.tdv'']"] by simp
qed

subsection \<open>Malformed lines\<close>









section \<open>Which slots an observation changes\<close>

subsection \<open>\<open>climate.c\<close>: one slot\<close>

lemma scan_passed:
  "scan n sts c val = Inr v \<Longrightarrow>
   \<forall>j. val \<le> j \<and> j < v \<longrightarrow> (\<exists>s. sts ! j = Some s \<and> code s \<noteq> c)"
proof (induction n sts c val rule: scan.induct)
  case (1 n sts c val)
  show ?case
  proof (cases "val < n \<and> val < length sts")
    case False
    then have "v = val" using "1.prems" by (subst (asm) scan.simps) (auto split: if_splits)
    then show ?thesis by auto
  next
    case True
    show ?thesis
    proof (cases "sts ! val")
      case None
      then have "v = val" using True "1.prems" by (subst (asm) scan.simps) auto
      then show ?thesis by auto
    next
      case (Some s)
      show ?thesis
      proof (cases "c = code s")
        case True
        then have "v = val" using \<open>val < n \<and> val < length sts\<close> Some "1.prems"
          by (subst (asm) scan.simps) auto
        then show ?thesis by auto
      next
        case False
        then have next_scan: "scan n sts c (val + 1) = Inr v"
          using True Some "1.prems" by (subst (asm) scan.simps) simp
        have ih: "\<forall>j. val + 1 \<le> j \<and> j < v \<longrightarrow> (\<exists>s. sts ! j = Some s \<and> code s \<noteq> c)"
          using "1.IH" [of s] True Some False next_scan by simp
        show ?thesis
        proof (intro allI impI)
          fix j assume j: "val \<le> j \<and> j < v"
          show "\<exists>s. sts ! j = Some s \<and> code s \<noteq> c"
          proof (cases "j = val")
            case True
            then show ?thesis using Some False by auto
          next
            case False
            then have "val + 1 \<le> j" using j by simp
            then show ?thesis using ih j by blast
          qed
        qed
      qed
    qed
  qed
qed

lemma analyze_line_changes_one_slot:
  assumes "analyze_line n sts line = Inr sts'" and "length sts \<le> n"
  shows "\<exists>val info. val < length sts \<and> sts' = sts[val := Some info]
           \<and> code info = region line
           \<and> (\<forall>j. j \<noteq> val \<longrightarrow> sts' ! j = sts ! j)
           \<and> ((sts ! val = None \<and> info = init_info (tokens line)
                 \<and> (\<forall>j < val. \<exists>s. sts ! j = Some s \<and> code s \<noteq> region line))
                \<or> (\<exists>s. sts ! val = Some s \<and> code s = region line
                      \<and> info = update_info s (tokens line)))"
proof -
  obtain val where sc: "scan n sts (region line) 0 = Inr val" and val: "val < length sts"
    and br: "(sts ! val = None \<and> sts' = sts[val := Some (init_info (tokens line))])
             \<or> (\<exists>s. sts ! val = Some s \<and> sts' = sts[val := Some (update_info s (tokens line))])"
    using analyze_line_Inr [OF assms(1)] by blast
  have before: "\<forall>j < val. \<exists>s. sts ! j = Some s \<and> code s \<noteq> region line"
    using scan_passed [OF sc] by simp
  from br show ?thesis
  proof
    assume a: "sts ! val = None \<and> sts' = sts[val := Some (init_info (tokens line))]"
    show ?thesis
      using a val before
      by (intro exI [of _ val] exI [of _ "init_info (tokens line)"]) (simp add: region_def)
  next
    assume "\<exists>s. sts ! val = Some s \<and> sts' = sts[val := Some (update_info s (tokens line))]"
    then obtain s where s: "sts ! val = Some s"
      "sts' = sts[val := Some (update_info s (tokens line))]" by blast
    have "code s = region line \<or> n \<le> val"
      using scan_result [OF sc val] s(1) by simp
    then have "code s = region line" using val assms(2) by simp
    then show ?thesis
      using s val by (intro exI [of _ val] exI [of _ "update_info s (tokens line)"]) simp
  qed
qed

subsection \<open>The draft \<open>climate copy.c\<close>: every slot\<close>





section \<open>The conversion to Fahrenheit\<close>




end
